theory Spec2Isabelle
  imports Main "HOL-Library.Word"
begin

unbundle bit_operations_syntax

section \<open>JavaScript numbers, arrays and values\<close>

text \<open>
  The vector's indices, sizes and levels are JavaScript numbers holding integers; they are
  modelled as \<open>int\<close>.  The bitwise operators first convert their operands to 32-bit
  integers and take the shift count modulo 32.
\<close>

definition to_int32 :: "int \<Rightarrow> int" where
  "to_int32 x = (x + 2147483648) mod 4294967296 - 2147483648"

definition js_shl :: "int \<Rightarrow> int \<Rightarrow> int" where
  \<comment> \<open>\<^verbatim>\<open>a << b\<close>\<close>
  "js_shl a b = to_int32 (to_int32 a * 2 ^ nat (b mod 32))"

definition js_sar :: "int \<Rightarrow> int \<Rightarrow> int" where
  \<comment> \<open>\<^verbatim>\<open>a >> b\<close>, sign-propagating\<close>
  "js_sar a b = to_int32 a div 2 ^ nat (b mod 32)"

definition js_shr :: "int \<Rightarrow> int \<Rightarrow> int" where
  \<comment> \<open>\<^verbatim>\<open>a >>> b\<close>, zero-filling: the left operand is read as unsigned\<close>
  "js_shr a b = (a mod 4294967296) div 2 ^ nat (b mod 32)"

definition js_and :: "int \<Rightarrow> int \<Rightarrow> int" where
  \<comment> \<open>\<^verbatim>\<open>a & b\<close>\<close>
  "js_and a b = to_int32 a AND to_int32 b"

definition BITS :: int where
  "BITS = 5"

definition WIDTH :: int where
  "WIDTH = js_shl 1 BITS"

definition MASK :: int where
  "MASK = WIDTH - 1"

text \<open>
  A slot of a node's array holds any JavaScript value: \<open>undefined\<close>, \<open>null\<close>, a value
  of the element type, or a \<open>Node\<close>.  An array may also have holes (\<open>None\<close> below), which
  an assignment beyond its length creates.  Values of the element type are taken to have
  no property called \<open>array\<close>, so that using one where a \<open>Node\<close> is expected ends in a
  \<open>TypeError\<close>, as it does for \<open>undefined\<close> and \<open>null\<close>.
\<close>

datatype 'a jsval = Undefined | Null | Val 'a | NodeV "'a node"
and 'a node = Node (array: "'a jsval option list")

datatype error = IndexOutOfBounds int | TypeError

type_synonym 'r result = "error + 'r"

text \<open>
  A computation that may recurse without bound has no result (\<open>None\<close>); the JavaScript
  engine ends it with a stack overflow.
\<close>

type_synonym 'r comp = "'r result option"

definition returns :: "'r \<Rightarrow> 'r comp" where
  "returns x = Some (Inr x)"

definition throws :: "error \<Rightarrow> 'r comp" where
  "throws e = Some (Inl e)"

fun bind_c :: "'r comp \<Rightarrow> ('r \<Rightarrow> 's comp) \<Rightarrow> 's comp" where
  "bind_c None f = None"
| "bind_c (Some (Inl e)) f = Some (Inl e)"
| "bind_c (Some (Inr x)) f = f x"

definition read_slot :: "'a jsval option \<Rightarrow> 'a jsval" where
  \<comment> \<open>reading a hole gives \<open>undefined\<close>\<close>
  "read_slot s = (case s of None \<Rightarrow> Undefined | Some v \<Rightarrow> v)"

definition js_nth :: "'a jsval option list \<Rightarrow> int \<Rightarrow> 'a jsval" where
  \<comment> \<open>\<^verbatim>\<open>arr[i]\<close>: \<open>undefined\<close> outside the array\<close>
  "js_nth arr i = (if 0 \<le> i \<and> i < int (length arr) then read_slot (arr ! nat i) else Undefined)"

definition js_set :: "'a jsval option list \<Rightarrow> int \<Rightarrow> 'a jsval \<Rightarrow> 'a jsval option list" where
  \<comment> \<open>\<^verbatim>\<open>arr[i] = v\<close>: beyond the length the array grows, leaving holes; a negative
      index sets a property and no element\<close>
  "js_set arr i v =
     (if i < 0 then arr
      else if i < int (length arr) then arr[nat i := Some v]
      else arr @ replicate (nat i - length arr) None @ [Some v])"

definition spread :: "'a jsval option list \<Rightarrow> 'a jsval option list" where
  \<comment> \<open>\<^verbatim>\<open>[...arr]\<close>: a copy in which holes have become \<open>undefined\<close>\<close>
  "spread arr = map (\<lambda>s. Some (read_slot s)) arr"

definition tail_nth :: "'a jsval list \<Rightarrow> int \<Rightarrow> 'a jsval" where
  \<comment> \<open>\<^verbatim>\<open>arr[i]\<close> on an array without holes\<close>
  "tail_nth xs i = (if 0 \<le> i \<and> i < int (length xs) then xs ! nat i else Undefined)"

section \<open>The trie-based Vector\<close>

record 'a vector =
  root :: "'a node"
  tail :: "'a jsval list"
  depth :: int
  vsize :: int

definition Vector :: "'a node \<Rightarrow> 'a jsval list \<Rightarrow> int \<Rightarrow> int \<Rightarrow> 'a vector" where
  "Vector r t d s = \<lparr>root = r, tail = t, depth = d, vsize = s\<rparr>"

definition size_vec :: "'a vector \<Rightarrow> int" where
  "size_vec v = vsize v"

definition isEmpty :: "'a vector \<Rightarrow> bool" where
  "isEmpty v = (vsize v = 0)"

lemma js_nth_NodeV_size:
  assumes "js_nth arr k = NodeV child"
  shows "size child < size (Node arr)"
proof -
  from assms have k: "0 \<le> k" "nat k < length arr" and r: "read_slot (arr ! nat k) = NodeV child"
    by (auto simp: js_nth_def split: if_splits)
  from r have "arr ! nat k = Some (NodeV child)"
    by (auto simp: read_slot_def split: option.splits)
  with k have "Some (NodeV child) \<in> set arr"
    by (metis nth_mem)
  then have "size_option size (Some (NodeV child)) \<le> size_list (size_option size) arr"
    by (simp add: size_list_estimation')
  then show ?thesis by simp
qed

function getElem :: "'a node \<Rightarrow> int \<Rightarrow> int \<Rightarrow> 'a jsval result" where
  "getElem node index level =
     (if level = 0 then Inr (js_nth (array node) (js_and index MASK))
      else
        let subIndex = js_and (js_sar index (level * BITS)) MASK in
        (case js_nth (array node) subIndex of
           NodeV child \<Rightarrow> getElem child index (level - 1)
         | _ \<Rightarrow> Inl TypeError))"
  by pat_completeness auto
termination
proof (relation "measure (\<lambda>(node, index, level). size node)")
  show "wf (measure (\<lambda>(node :: 'a node, index :: int, level :: int). size node))"
    by simp
next
  fix node :: "'a node" and index level subIndex :: int and child :: "'a node"
  assume "js_nth (array node) subIndex = NodeV child"
  then have "size child < size (Node (array node))"
    by (rule js_nth_NodeV_size)
  then show "((child, index, level - 1), node, index, level)
      \<in> measure (\<lambda>(node, index, level). size node)"
    by simp
qed

definition apply_vec :: "int \<Rightarrow> 'a vector \<Rightarrow> 'a jsval result" where
  "apply_vec index v =
     (if index < 0 \<or> index \<ge> vsize v then Inl (IndexOutOfBounds index)
      else
        let tailOffset = vsize v - int (length (tail v)) in
        if index \<ge> tailOffset then Inr (tail_nth (tail v) (index - tailOffset))
        else getElem (root v) index (depth v))"

definition Some_js :: "'a jsval \<Rightarrow> 'a jsval option" where
  \<comment> \<open>the constructor function \<open>Some\<close> of the Option module: \<open>None\<close> for a nullish value\<close>
  "Some_js v = (if v = Null \<or> v = Undefined then None else Some v)"

definition get :: "int \<Rightarrow> 'a vector \<Rightarrow> 'a jsval option result" where
  "get index v =
     (if index < 0 \<or> index \<ge> vsize v then Inr None
      else (case apply_vec index v of Inl e \<Rightarrow> Inl e | Inr x \<Rightarrow> Inr (Some_js x)))"

function updateElem :: "'a node \<Rightarrow> int \<Rightarrow> 'a jsval \<Rightarrow> int \<Rightarrow> 'a node result" where
  "updateElem node index elem level =
     (let newArray = spread (array node) in
      if level = 0 then Inr (Node (js_set newArray (js_and index MASK) elem))
      else
        let subIndex = js_and (js_sar index (level * BITS)) MASK in
        (case js_nth (array node) subIndex of
           NodeV child \<Rightarrow>
             (case updateElem child index elem (level - 1) of
                Inl e \<Rightarrow> Inl e
              | Inr n \<Rightarrow> Inr (Node (js_set newArray subIndex (NodeV n))))
         | _ \<Rightarrow> Inl TypeError))"
  by pat_completeness auto
termination
proof (relation "measure (\<lambda>(node, index, elem, level). size node)")
  show "wf (measure (\<lambda>(node :: 'a node, index :: int, elem :: 'a jsval, level :: int). size node))"
    by simp
next
  fix node :: "'a node" and index level subIndex :: int and elem :: "'a jsval"
    and child :: "'a node"
  assume "js_nth (array node) subIndex = NodeV child"
  then have "size child < size (Node (array node))"
    by (rule js_nth_NodeV_size)
  then show "((child, index, elem, level - 1), node, index, elem, level)
      \<in> measure (\<lambda>(node, index, elem, level). size node)"
    by simp
qed

definition updated :: "int \<Rightarrow> 'a jsval \<Rightarrow> 'a vector \<Rightarrow> 'a vector result" where
  "updated index elem v =
     (if index < 0 \<or> index \<ge> vsize v then Inr v
      else
        let tailOffset = vsize v - int (length (tail v)) in
        if index \<ge> tailOffset then
          \<comment> \<open>here \<open>0 \<le> index - tailOffset < tail.length\<close>: the assignment is in range\<close>
          Inr (Vector (root v) ((tail v)[nat (index - tailOffset) := elem]) (depth v) (vsize v))
        else
          (case updateElem (root v) index elem (depth v) of
             Inl e \<Rightarrow> Inl e
           | Inr newRoot \<Rightarrow> Inr (Vector newRoot (tail v) (depth v) (vsize v))))"

text \<open>
  \<open>pushTail\<close> stops only at \<open>level = 1\<close>, and below a missing child it goes on with a
  fresh empty node, so its recursion is not bounded by the trie: it is a partial function.
\<close>

partial_function (option) pushTail ::
  "'a node \<Rightarrow> int \<Rightarrow> 'a node \<Rightarrow> int \<Rightarrow> 'a node comp" where
  "pushTail node index tailNode level =
     (let subIndex = js_and (js_sar index (level * BITS)) MASK;
          newArray = spread (array node) in
      if level = 1 then Some (Inr (Node (js_set newArray subIndex (NodeV tailNode))))
      else
        (case (if subIndex < int (length (array node)) then js_nth (array node) subIndex
               else NodeV (Node [])) of
           NodeV child \<Rightarrow>
             Option.bind (pushTail child index tailNode (level - 1))
               (\<lambda>r. Some (case r of
                     Inl e \<Rightarrow> Inl e
                   | Inr n \<Rightarrow> Inr (Node (js_set newArray subIndex (NodeV n)))))
         | _ \<Rightarrow> Some (Inl TypeError)))"

definition appended :: "'a jsval \<Rightarrow> 'a vector \<Rightarrow> 'a vector comp" where
  "appended elem v =
     (if int (length (tail v)) < WIDTH then
        returns (Vector (root v) (tail v @ [elem]) (depth v) (vsize v + 1))
      else
        let tailIndex = vsize v - WIDTH;
            grow = (js_shr tailIndex (BITS * depth v) > 0);
            newRoot = (if grow then Node [Some (NodeV (root v))] else root v);
            newDepth = (if grow then depth v + 1 else depth v)
        in bind_c (pushTail newRoot tailIndex (Node (map Some (tail v))) newDepth)
             (\<lambda>newRoot'. returns (Vector newRoot' [elem] newDepth (vsize v + 1))))"

function removeFirst :: "'a node \<Rightarrow> int \<Rightarrow> 'a node result" where
  "removeFirst node level =
     (if level = 0 then Inr (Node (tl (spread (array node))))
      else
        (case js_nth (array node) 0 of
           NodeV child \<Rightarrow>
             (case removeFirst child (level - 1) of
                Inl e \<Rightarrow> Inl e
              | Inr n \<Rightarrow> Inr (Node (js_set (spread (array node)) 0 (NodeV n))))
         | _ \<Rightarrow> Inl TypeError))"
  by pat_completeness auto
termination
proof (relation "measure (\<lambda>(node, level). size node)")
  show "wf (measure (\<lambda>(node :: 'a node, level :: int). size node))"
    by simp
next
  fix node :: "'a node" and level :: int and child :: "'a node"
  assume "js_nth (array node) 0 = NodeV child"
  then have "size child < size (Node (array node))"
    by (rule js_nth_NodeV_size)
  then show "((child, level - 1), node, level) \<in> measure (\<lambda>(node, level). size node)"
    by simp
qed

definition empty_vec :: "'a vector" where
  "empty_vec = Vector (Node []) [] 0 0"

text \<open>The loop of \<open>of\<close>: \<^verbatim>\<open>for (const elem of elements) vector = vector.appended(elem)\<close>.\<close>

fun of_loop :: "'a vector \<Rightarrow> 'a jsval list \<Rightarrow> 'a vector comp" where
  "of_loop vector [] = returns vector"
| "of_loop vector (elem # elements) =
     (case appended elem vector of
        None \<Rightarrow> None
      | Some (Inl e) \<Rightarrow> Some (Inl e)
      | Some (Inr vector') \<Rightarrow> of_loop vector' elements)"

definition of_vec :: "'a jsval list \<Rightarrow> 'a vector comp" where
  "of_vec elements =
     (if length elements = 0 then returns empty_vec
      else if int (length elements) \<le> WIDTH then
        returns (Vector (Node []) elements 0 (int (length elements)))
      else of_loop empty_vec elements)"

definition from_vec :: "'a jsval list \<Rightarrow> 'a vector comp" where
  \<comment> \<open>\<^verbatim>\<open>Vector.of(...array)\<close>\<close>
  "from_vec arr = of_vec arr"

text \<open>
  The loop of \<open>appendAll\<close>, from index \<open>i\<close> on:
  \<^verbatim>\<open>for (let i = 0; i < that.size(); i++) result = result.appended(that.apply(i))\<close>.
\<close>

function appendAll_loop :: "'a vector \<Rightarrow> 'a vector \<Rightarrow> int \<Rightarrow> 'a vector comp" where
  "appendAll_loop result that i =
     (if i < size_vec that then
        (case apply_vec i that of
           Inl e \<Rightarrow> Some (Inl e)
         | Inr x \<Rightarrow>
            (case appended x result of
               None \<Rightarrow> None
             | Some (Inl e) \<Rightarrow> Some (Inl e)
             | Some (Inr result') \<Rightarrow> appendAll_loop result' that (i + 1)))
      else returns result)"
  by pat_completeness auto
termination
  by (relation "measure (\<lambda>(result, that, i). nat (size_vec that - i))") auto

definition appendAll :: "'a vector \<Rightarrow> 'a vector \<Rightarrow> 'a vector comp" where
  \<comment> \<open>\<open>appendAll v that\<close> is \<^verbatim>\<open>v.appendAll(that)\<close>\<close>
  "appendAll v that =
     (if isEmpty that then returns v
      else if isEmpty v then returns that
      else appendAll_loop v that 0)"

definition prepended :: "'a jsval \<Rightarrow> 'a vector \<Rightarrow> 'a vector comp" where
  "prepended elem v =
     (if isEmpty v then of_vec [elem]
      else if int (length (tail v)) = WIDTH then
        bind_c (of_vec [elem]) (\<lambda>w. appendAll w v)
      else
        let tailOffset = vsize v - int (length (tail v)) in
        if tailOffset = 0 then
          returns (Vector (root v) (elem # tail v) (depth v) (vsize v + 1))
        else
          (case apply_vec 0 v of
             Inl e \<Rightarrow> throws e
           | Inr first \<Rightarrow>
              (case removeFirst (root v) (depth v) of
                 Inl e \<Rightarrow> throws e
               | Inr newRoot \<Rightarrow>
                   returns (Vector newRoot (elem # tail v) (depth v) (vsize v + 1)))))"

text \<open>
  \<open>mapNode\<close> maps a node's array slot by slot; \<open>Array.prototype.map\<close> skips holes.  Above
  the leaf level a falsy child becomes \<open>null\<close>; \<open>truthy\<close> says which values of the
  element type are truthy.
\<close>

fun mapNode :: "('a \<Rightarrow> bool) \<Rightarrow> ('a jsval \<Rightarrow> 'b jsval) \<Rightarrow> 'a node \<Rightarrow> int \<Rightarrow> 'b node result"
and mapChildren ::
  "('a \<Rightarrow> bool) \<Rightarrow> ('a jsval \<Rightarrow> 'b jsval) \<Rightarrow> 'a jsval option list \<Rightarrow> int
     \<Rightarrow> 'b jsval option list result" where
  "mapNode truthy f (Node arr) level =
     (if level = 0 then Inr (Node (map (map_option f) arr))
      else (case mapChildren truthy f arr level of
              Inl e \<Rightarrow> Inl e
            | Inr arr' \<Rightarrow> Inr (Node arr')))"
| "mapChildren truthy f [] level = Inr []"
| "mapChildren truthy f (None # cs) level =
     (case mapChildren truthy f cs level of
        Inl e \<Rightarrow> Inl e
      | Inr cs' \<Rightarrow> Inr (None # cs'))"
| "mapChildren truthy f (Some (NodeV child) # cs) level =
     (case mapNode truthy f child (level - 1) of
        Inl e \<Rightarrow> Inl e
      | Inr child' \<Rightarrow>
         (case mapChildren truthy f cs level of
            Inl e \<Rightarrow> Inl e
          | Inr cs' \<Rightarrow> Inr (Some (NodeV child') # cs')))"
| "mapChildren truthy f (Some (Val x) # cs) level =
     (if truthy x then Inl TypeError
      else (case mapChildren truthy f cs level of
              Inl e \<Rightarrow> Inl e
            | Inr cs' \<Rightarrow> Inr (Some Null # cs')))"
| "mapChildren truthy f (Some Undefined # cs) level =
     (case mapChildren truthy f cs level of
        Inl e \<Rightarrow> Inl e
      | Inr cs' \<Rightarrow> Inr (Some Null # cs'))"
| "mapChildren truthy f (Some Null # cs) level =
     (case mapChildren truthy f cs level of
        Inl e \<Rightarrow> Inl e
      | Inr cs' \<Rightarrow> Inr (Some Null # cs'))"

definition map_vec ::
  "('a \<Rightarrow> bool) \<Rightarrow> ('a jsval \<Rightarrow> 'b jsval) \<Rightarrow> 'a vector \<Rightarrow> 'b vector result" where
  "map_vec truthy f v =
     (let newTail = map f (tail v) in
      if vsize v = int (length (tail v)) then Inr (Vector (Node []) newTail 0 (vsize v))
      else
        (case mapNode truthy f (root v) (depth v) of
           Inl e \<Rightarrow> Inl e
         | Inr newRoot \<Rightarrow> Inr (Vector newRoot newTail (depth v) (vsize v))))"

text \<open>
  The loop of \<open>flatMap\<close>, from index \<open>i\<close> on:
  \<^verbatim>\<open>for (let i = 0; i < this._size; i++) result = result.appendAll(f(this.apply(i)))\<close>.
\<close>

function flatMap_loop ::
  "('a jsval \<Rightarrow> 'b vector) \<Rightarrow> 'a vector \<Rightarrow> int \<Rightarrow> 'b vector \<Rightarrow> 'b vector comp" where
  "flatMap_loop f v i result =
     (if i < vsize v then
        (case apply_vec i v of
           Inl e \<Rightarrow> Some (Inl e)
         | Inr x \<Rightarrow>
            (case appendAll result (f x) of
               None \<Rightarrow> None
             | Some (Inl e) \<Rightarrow> Some (Inl e)
             | Some (Inr result') \<Rightarrow> flatMap_loop f v (i + 1) result'))
      else returns result)"
  by pat_completeness auto
termination
  by (relation "measure (\<lambda>(f, v, i, result). nat (vsize v - i))") auto

definition flatMap :: "('a jsval \<Rightarrow> 'b vector) \<Rightarrow> 'a vector \<Rightarrow> 'b vector comp" where
  "flatMap f v =
     (if isEmpty v then returns empty_vec
      else flatMap_loop f v 0 empty_vec)"

text \<open>
  The loop of \<open>filter\<close>, from index \<open>i\<close> on:
  \<^verbatim>\<open>const elem = this.apply(i); if (p(elem)) result = result.appended(elem)\<close>.
\<close>

function filter_loop ::
  "('a jsval \<Rightarrow> bool) \<Rightarrow> 'a vector \<Rightarrow> int \<Rightarrow> 'a vector \<Rightarrow> 'a vector comp" where
  "filter_loop p v i result =
     (if i < vsize v then
        (case apply_vec i v of
           Inl e \<Rightarrow> Some (Inl e)
         | Inr elem \<Rightarrow>
            if p elem then
              (case appended elem result of
                 None \<Rightarrow> None
               | Some (Inl e) \<Rightarrow> Some (Inl e)
               | Some (Inr result') \<Rightarrow> filter_loop p v (i + 1) result')
            else filter_loop p v (i + 1) result)
      else returns result)"
  by pat_completeness auto
termination
  by (relation "measure (\<lambda>(p, v, i, result). nat (vsize v - i))") auto

definition filter_vec :: "('a jsval \<Rightarrow> bool) \<Rightarrow> 'a vector \<Rightarrow> 'a vector comp" where
  "filter_vec p v =
     (if isEmpty v then returns v
      else filter_loop p v 0 empty_vec)"

text \<open>
  The loop of \<open>toArray\<close>, from index \<open>i\<close> on:
  \<^verbatim>\<open>for (let i = 0; i < this._size; i++) result.push(this.apply(i))\<close>.
\<close>

function toArray_loop :: "'a vector \<Rightarrow> int \<Rightarrow> 'a jsval list \<Rightarrow> 'a jsval list result" where
  "toArray_loop v i result =
     (if i < vsize v then
        (case apply_vec i v of
           Inl e \<Rightarrow> Inl e
         | Inr x \<Rightarrow> toArray_loop v (i + 1) (result @ [x]))
      else Inr result)"
  by pat_completeness auto
termination
  by (relation "measure (\<lambda>(v, i, result). nat (vsize v - i))") auto

definition toArray :: "'a vector \<Rightarrow> 'a jsval list result" where
  "toArray v = toArray_loop v 0 []"

section \<open>The array-backed Vector\<close>

text \<open>The class of \<^verbatim>\<open>src/vector/Vector.ts\<close>: a wrapper of one array \<open>data\<close>.\<close>

datatype 'a avector = AVector (data: "'a jsval list")

definition size_arr :: "'a avector \<Rightarrow> int" where
  "size_arr v = int (length (data v))"

definition isEmpty_arr :: "'a avector \<Rightarrow> bool" where
  "isEmpty_arr v = (int (length (data v)) = 0)"

definition apply_arr :: "int \<Rightarrow> 'a avector \<Rightarrow> 'a jsval result" where
  "apply_arr index v =
     (if index < 0 \<or> index \<ge> int (length (data v)) then Inl (IndexOutOfBounds index)
      else Inr (tail_nth (data v) index))"

definition get_arr :: "int \<Rightarrow> 'a avector \<Rightarrow> 'a jsval option result" where
  "get_arr index v =
     (if index < 0 \<or> index \<ge> int (length (data v)) then Inr None
      else Inr (Some_js (tail_nth (data v) index)))"

definition updated_arr :: "int \<Rightarrow> 'a jsval \<Rightarrow> 'a avector \<Rightarrow> 'a avector" where
  "updated_arr index elem v =
     (if index < 0 \<or> index \<ge> int (length (data v)) then v
      else AVector ((data v)[nat index := elem]))"

definition appended_arr :: "'a jsval \<Rightarrow> 'a avector \<Rightarrow> 'a avector" where
  "appended_arr elem v = AVector (data v @ [elem])"

definition prepended_arr :: "'a jsval \<Rightarrow> 'a avector \<Rightarrow> 'a avector" where
  "prepended_arr elem v = AVector (elem # data v)"

definition appendAll_arr :: "'a avector \<Rightarrow> 'a avector \<Rightarrow> 'a avector" where
  "appendAll_arr v that = AVector (data v @ data that)"

definition map_arr :: "('a jsval \<Rightarrow> 'b jsval) \<Rightarrow> 'a avector \<Rightarrow> 'b avector" where
  "map_arr f v = AVector (map f (data v))"

definition flatMap_arr :: "('a jsval \<Rightarrow> 'b avector) \<Rightarrow> 'a avector \<Rightarrow> 'b avector" where
  "flatMap_arr f v = AVector (concat (map (\<lambda>elem. data (f elem)) (data v)))"

definition filter_arr :: "('a jsval \<Rightarrow> bool) \<Rightarrow> 'a avector \<Rightarrow> 'a avector" where
  "filter_arr p v = AVector (filter p (data v))"

definition toArray_arr :: "'a avector \<Rightarrow> 'a jsval list" where
  "toArray_arr v = data v"

definition of_arr :: "'a jsval list \<Rightarrow> 'a avector" where
  "of_arr elements = AVector elements"

definition empty_arr :: "'a avector" where
  "empty_arr = AVector []"

definition from_arr :: "'a jsval list \<Rightarrow> 'a avector" where
  "from_arr arr = AVector arr"

section \<open>Vector values\<close>

text \<open>
  The constructor of \<open>Vector\<close> is private: a program holds only the vectors that the
  public operations return.  \<open>reachable\<close> is the set of these values.  An operation that
  throws or does not return contributes no value.
\<close>

inductive reachable :: "'a vector \<Rightarrow> bool" where
  r_empty: "reachable empty_vec"
| r_of: "of_vec elements = returns v \<Longrightarrow> reachable v"
| r_from: "from_vec arr = returns v \<Longrightarrow> reachable v"
| r_updated: "reachable v \<Longrightarrow> updated index elem v = Inr w \<Longrightarrow> reachable w"
| r_appended: "reachable v \<Longrightarrow> appended elem v = returns w \<Longrightarrow> reachable w"
| r_prepended: "reachable v \<Longrightarrow> prepended elem v = returns w \<Longrightarrow> reachable w"
| r_appendAll: "reachable v \<Longrightarrow> reachable that \<Longrightarrow> appendAll v that = returns w \<Longrightarrow> reachable w"
| r_map: "reachable v \<Longrightarrow> map_vec truthy f v = Inr w \<Longrightarrow> reachable w"
| r_filter: "reachable v \<Longrightarrow> filter_vec p v = returns w \<Longrightarrow> reachable w"
| r_flatMap: "reachable v \<Longrightarrow> (\<forall>x. reachable (g x)) \<Longrightarrow> flatMap g v = returns w \<Longrightarrow> reachable w"

text \<open>
  \<open>tail_vector elements\<close> is \<^verbatim>\<open>new Vector(new Node([]), elements, 0, elements.length)\<close>, the
  vector that \<open>of\<close> builds from at most \<open>WIDTH\<close> elements.
\<close>

definition tail_vector :: "'a jsval list \<Rightarrow> 'a vector" where
  "tail_vector elements = Vector (Node []) elements 0 (int (length elements))"

definition tail_only :: "'a vector \<Rightarrow> bool" where
  "tail_only v \<longleftrightarrow>
     root v = Node [] \<and> depth v = 0 \<and> vsize v = int (length (tail v)) \<and> length (tail v) \<le> 32"

text \<open>
  The number of elements stored in a trie of the given level: the slots of its leaf-level
  nodes that are not holes.
\<close>

fun trie_count :: "'a node \<Rightarrow> int \<Rightarrow> nat"
and children_count :: "'a jsval option list \<Rightarrow> int \<Rightarrow> nat" where
  "trie_count (Node arr) level =
     (if level = 0 then length (filter (\<lambda>s. s \<noteq> None) arr) else children_count arr level)"
| "children_count [] level = 0"
| "children_count (Some (NodeV child) # cs) level =
     trie_count child (level - 1) + children_count cs level"
| "children_count (Some Undefined # cs) level = children_count cs level"
| "children_count (Some Null # cs) level = children_count cs level"
| "children_count (Some (Val x) # cs) level = children_count cs level"
| "children_count (None # cs) level = children_count cs level"

text \<open>The invariants of section 3 of the specification on the tail and the trie's count.\<close>

definition tail_trie_invariant :: "'a vector \<Rightarrow> bool" where
  "tail_trie_invariant v \<longleftrightarrow>
     length (tail v) \<le> 32 \<and>
     vsize v - int (length (tail v)) = int (trie_count (root v) (depth v)) \<and>
     32 dvd (vsize v - int (length (tail v)))"

text \<open>The index of the child taken at a level: \<^verbatim>\<open>(index >> (level * BITS)) & MASK\<close>.\<close>

definition digit :: "int \<Rightarrow> int \<Rightarrow> int" where
  "digit index level = js_and (js_sar index (level * BITS)) MASK"

text \<open>The array-backed vector that holds the elements of a tail-only vector.\<close>

definition abs_vec :: "'a vector \<Rightarrow> 'a avector" where
  "abs_vec v = AVector (tail v)"

text \<open>An outcome that is the out-of-range error of \<open>apply\<close>, for any index.\<close>

fun raises_out_of_range :: "'r comp \<Rightarrow> bool" where
  "raises_out_of_range (Some (Inl (IndexOutOfBounds j))) = True"
| "raises_out_of_range _ = False"

section \<open>Properties\<close>

declare getElem.simps [simp del] updateElem.simps [simp del] removeFirst.simps [simp del]
  appendAll_loop.simps [simp del] flatMap_loop.simps [simp del] filter_loop.simps [simp del]
  toArray_loop.simps [simp del]

subsection \<open>Constants and bit operations\<close>

lemma WIDTH_eq: "WIDTH = 32"
  by (simp add: WIDTH_def BITS_def js_shl_def to_int32_def)

lemma MASK_eq: "MASK = 31"
  by (simp add: MASK_def WIDTH_eq)

lemma js_and_MASK_nonneg: "0 \<le> js_and x MASK"
  by (simp add: js_and_def MASK_eq to_int32_def)

lemma js_and_MASK_less: "js_and x MASK < 32"
proof -
  have "to_int32 x AND 31 \<le> 31"
    by (rule AND_upper2) simp
  then show ?thesis
    by (simp add: js_and_def MASK_eq to_int32_def)
qed

subsection \<open>\<open>pushTail\<close> below its base case\<close>

text \<open>
  On an empty node \<open>pushTail\<close> finds no child and goes on with a fresh empty node one
  level down.  Started at a level below 1 it never meets \<open>level = 1\<close>: it has no result.
\<close>

lemma pushTail_empty_level:
  assumes "pushTail node index tailNode level = Some y"
  shows "array node = [] \<longrightarrow> 1 \<le> level"
proof (rule pushTail.raw_induct
    [where P = "\<lambda>node index tailNode level y. array node = [] \<longrightarrow> 1 \<le> level", OF _ assms])
  fix pt :: "'a node \<Rightarrow> int \<Rightarrow> 'a node \<Rightarrow> int \<Rightarrow> 'a node comp"
    and node tailNode :: "'a node" and index level :: int and y :: "'a node result"
  assume IH: "\<And>node index tailNode level y.
      pt node index tailNode level = Some y \<Longrightarrow> array node = [] \<longrightarrow> 1 \<le> level"
  assume body: "(let subIndex = js_and (js_sar index (level * BITS)) MASK;
          newArray = spread (array node) in
      if level = 1 then Some (Inr (Node (js_set newArray subIndex (NodeV tailNode))))
      else
        (case (if subIndex < int (length (array node)) then js_nth (array node) subIndex
               else NodeV (Node [])) of
           NodeV child \<Rightarrow>
             Option.bind (pt child index tailNode (level - 1))
               (\<lambda>r. Some (case r of
                     Inl e \<Rightarrow> Inl e
                   | Inr n \<Rightarrow> Inr (Node (js_set newArray subIndex (NodeV n)))))
         | _ \<Rightarrow> Some (Inl TypeError))) = Some y"
  show "array node = [] \<longrightarrow> 1 \<le> level"
  proof (intro impI, cases "level = 1")
    case True
    then show "1 \<le> level" by simp
  next
    case False
    assume empty: "array node = []"
    let ?sub = "js_and (js_sar index (level * BITS)) MASK"
    have "\<not> ?sub < int (length (array node))"
      using empty js_and_MASK_nonneg [of "js_sar index (level * BITS)"] by simp
    with body False obtain r where "pt (Node []) index tailNode (level - 1) = Some r"
      by (auto simp: Let_def Option.bind_eq_Some_conv)
    then have "array (Node [] :: 'a node) = [] \<longrightarrow> 1 \<le> level - 1"
      by (rule IH)
    then show "1 \<le> level" by simp
  qed
qed

lemma pushTail_empty_diverges: "level \<le> 0 \<Longrightarrow> pushTail (Node []) index tailNode level = None"
  using pushTail_empty_level [of "Node []" index tailNode level]
  by (cases "pushTail (Node []) index tailNode level") auto

subsection \<open>The operations on tail-only vectors\<close>

lemma js_shr_zero: "js_shr 0 b = 0"
  by (simp add: js_shr_def)

lemma tail_vector_sel [simp]:
  "root (tail_vector xs) = Node []"
  "tail (tail_vector xs) = xs"
  "depth (tail_vector xs) = 0"
  "vsize (tail_vector xs) = int (length xs)"
  by (simp_all add: tail_vector_def Vector_def)

lemma tail_only_iff: "tail_only v \<longleftrightarrow> (\<exists>xs. length xs \<le> 32 \<and> v = tail_vector xs)"
  by (cases v) (auto simp: tail_only_def tail_vector_def Vector_def)

lemma tail_only_tail_vector: "tail_only (tail_vector xs) \<longleftrightarrow> length xs \<le> 32"
  by (simp add: tail_only_def)

lemma empty_vec_eq: "empty_vec = tail_vector []"
  by (simp add: empty_vec_def tail_vector_def)

lemma apply_tail_vector:
  "apply_vec i (tail_vector xs) =
     (if i < 0 \<or> int (length xs) \<le> i then Inl (IndexOutOfBounds i) else Inr (xs ! nat i))"
  by (simp add: apply_vec_def tail_nth_def)

lemma appended_tail_vector:
  assumes "length xs \<le> 32"
  shows "appended x (tail_vector xs) =
     (if length xs < 32 then returns (tail_vector (xs @ [x])) else None)"
proof (cases "length xs < 32")
  case True
  then show ?thesis
    by (simp add: appended_def WIDTH_eq tail_vector_def Vector_def add.commute)
next
  case False
  with assms have len: "length xs = 32" by simp
  have "pushTail (Node []) 0 (Node (map Some xs)) 0 = None"
    by (rule pushTail_empty_diverges) simp
  with len show ?thesis
    by (simp add: appended_def WIDTH_eq js_shr_zero)
qed

lemma of_loop_tail_vector:
  "length ys \<le> 32 \<Longrightarrow>
   of_loop (tail_vector ys) xs =
     (if length ys + length xs \<le> 32 then returns (tail_vector (ys @ xs)) else None)"
proof (induction xs arbitrary: ys)
  case Nil
  then show ?case by simp
next
  case (Cons x xs)
  show ?case
  proof (cases "length ys < 32")
    case True
    then have "of_loop (tail_vector ys) (x # xs) = of_loop (tail_vector (ys @ [x])) xs"
      using Cons.prems by (simp add: appended_tail_vector returns_def)
    also have "\<dots> = (if length (ys @ [x]) + length xs \<le> 32
        then returns (tail_vector ((ys @ [x]) @ xs)) else None)"
      using True by (intro Cons.IH) simp
    finally show ?thesis by simp
  next
    case False
    then show ?thesis
      using Cons.prems by (simp add: appended_tail_vector)
  qed
qed

lemma of_vec_eq:
  "of_vec xs = (if length xs \<le> 32 then returns (tail_vector xs) else None)"
proof (cases "length xs \<le> 32")
  case True
  then show ?thesis
    by (auto simp: of_vec_def WIDTH_eq empty_vec_eq tail_vector_def)
next
  case False
  then show ?thesis
    using of_loop_tail_vector [of "[]" xs]
    by (auto simp: of_vec_def WIDTH_eq empty_vec_eq)
qed

lemma toArray_loop_tail_vector:
  "0 \<le> i \<Longrightarrow> toArray_loop (tail_vector xs) i acc = Inr (acc @ drop (nat i) xs)"
proof (induction "tail_vector xs" i acc rule: toArray_loop.induct)
  case (1 i acc)
  show ?case
  proof (cases "i < int (length xs)")
    case True
    with "1.prems" have ap: "apply_vec i (tail_vector xs) = Inr (xs ! nat i)"
      by (simp add: apply_tail_vector)
    have "toArray_loop (tail_vector xs) i acc
        = toArray_loop (tail_vector xs) (i + 1) (acc @ [xs ! nat i])"
      using True ap by (subst toArray_loop.simps) simp
    also have "\<dots> = Inr ((acc @ [xs ! nat i]) @ drop (nat (i + 1)) xs)"
      using True ap "1.prems" by (intro "1.hyps") simp_all
    also have "(acc @ [xs ! nat i]) @ drop (nat (i + 1)) xs = acc @ drop (nat i) xs"
    proof -
      have "nat (i + 1) = Suc (nat i)" using "1.prems" by simp
      moreover have "nat i < length xs" using True "1.prems" by simp
      ultimately show ?thesis by (simp add: Cons_nth_drop_Suc)
    qed
    finally show ?thesis .
  next
    case False
    then show ?thesis
      by (subst toArray_loop.simps) simp
  qed
qed

lemma toArray_tail_vector: "toArray (tail_vector xs) = Inr xs"
  by (simp add: toArray_def toArray_loop_tail_vector)

lemma appendAll_loop_tail_vector:
  "0 \<le> i \<Longrightarrow> length xs \<le> 32 \<Longrightarrow>
   appendAll_loop (tail_vector xs) (tail_vector ys) i =
     (if length xs + length (drop (nat i) ys) \<le> 32
      then returns (tail_vector (xs @ drop (nat i) ys)) else None)"
proof (induction "length ys - nat i" arbitrary: i xs)
  case 0
  then have "\<not> i < int (length ys)" by simp
  then show ?case
    using "0.prems" by (subst appendAll_loop.simps) (simp add: size_vec_def)
next
  case (Suc n)
  then have inrange: "i < int (length ys)" and i: "0 \<le> i" by simp_all
  then have ap: "apply_vec i (tail_vector ys) = Inr (ys ! nat i)"
    by (simp add: apply_tail_vector)
  have nat_i: "nat (i + 1) = Suc (nat i)" "nat i < length ys"
    using i inrange by simp_all
  then have dr: "drop (nat i) ys = ys ! nat i # drop (nat (i + 1)) ys"
    by (simp add: Cons_nth_drop_Suc)
  show ?case
  proof (cases "length xs < 32")
    case True
    then have app: "appended (ys ! nat i) (tail_vector xs)
        = Some (Inr (tail_vector (xs @ [ys ! nat i])))"
      using Suc.prems by (simp add: appended_tail_vector returns_def)
    have "appendAll_loop (tail_vector xs) (tail_vector ys) i
        = appendAll_loop (tail_vector (xs @ [ys ! nat i])) (tail_vector ys) (i + 1)"
      using inrange ap app by (subst appendAll_loop.simps) (simp add: size_vec_def)
    also have "\<dots> = (if length (xs @ [ys ! nat i]) + length (drop (nat (i + 1)) ys) \<le> 32
        then returns (tail_vector ((xs @ [ys ! nat i]) @ drop (nat (i + 1)) ys)) else None)"
    proof (rule Suc.hyps(1))
      show "n = length ys - nat (i + 1)" using Suc.hyps(2) nat_i by simp
      show "0 \<le> i + 1" using i by simp
      show "length (xs @ [ys ! nat i]) \<le> 32" using True by simp
    qed
    finally show ?thesis
      by (simp add: dr)
  next
    case False
    then have app: "appended (ys ! nat i) (tail_vector xs) = None"
      using Suc.prems by (simp add: appended_tail_vector)
    have "appendAll_loop (tail_vector xs) (tail_vector ys) i = None"
      using inrange ap app by (subst appendAll_loop.simps) (simp add: size_vec_def)
    then show ?thesis
      using False Suc.prems by (simp add: dr)
  qed
qed

lemma appendAll_tail_vector:
  assumes "length xs \<le> 32" and "length ys \<le> 32"
  shows "appendAll (tail_vector xs) (tail_vector ys) =
     (if length xs + length ys \<le> 32 then returns (tail_vector (xs @ ys)) else None)"
  using assms appendAll_loop_tail_vector [of 0 xs ys]
  by (auto simp: appendAll_def isEmpty_def)

lemma prepended_tail_vector:
  assumes "length xs \<le> 32"
  shows "prepended x (tail_vector xs) =
     (if length xs < 32 then returns (tail_vector (x # xs)) else None)"
proof -
  have one: "of_vec [x] = returns (tail_vector [x])"
    by (simp add: of_vec_eq)
  show ?thesis
  proof (cases "length xs = 32")
    case True
    then show ?thesis
      using appendAll_tail_vector [of "[x]" xs]
      by (simp add: prepended_def isEmpty_def WIDTH_eq one returns_def)
  next
    case False
    with assms show ?thesis
      by (auto simp: prepended_def isEmpty_def WIDTH_eq one tail_vector_def Vector_def add.commute)
  qed
qed

lemma updated_tail_vector:
  "updated i x (tail_vector xs) =
     Inr (tail_vector (if 0 \<le> i \<and> i < int (length xs) then xs[nat i := x] else xs))"
  by (auto simp: updated_def tail_vector_def Vector_def)

lemma map_tail_vector: "map_vec truthy f (tail_vector xs) = Inr (tail_vector (map f xs))"
  by (simp add: map_vec_def tail_vector_def Vector_def)

lemma get_tail_vector:
  "get i (tail_vector xs) =
     Inr (if i < 0 \<or> int (length xs) \<le> i then None else Some_js (xs ! nat i))"
  by (simp add: get_def apply_tail_vector)

lemma filter_loop_tail_vector:
  "0 \<le> i \<Longrightarrow> length acc + length (drop (nat i) xs) \<le> 32 \<Longrightarrow>
   filter_loop p (tail_vector xs) i (tail_vector acc) =
     returns (tail_vector (acc @ filter p (drop (nat i) xs)))"
proof (induction "length xs - nat i" arbitrary: i acc)
  case 0
  then have "\<not> i < int (length xs)" by simp
  then show ?case
    by (subst filter_loop.simps) simp
next
  case (Suc n)
  then have inrange: "i < int (length xs)" and i: "0 \<le> i" by simp_all
  then have ap: "apply_vec i (tail_vector xs) = Inr (xs ! nat i)"
    by (simp add: apply_tail_vector)
  have nat_i: "nat (i + 1) = Suc (nat i)" "nat i < length xs"
    using i inrange by simp_all
  then have dr: "drop (nat i) xs = xs ! nat i # drop (nat (i + 1)) xs"
    by (simp add: Cons_nth_drop_Suc)
  have n: "n = length xs - nat (i + 1)"
    using Suc.hyps(2) nat_i by simp
  have room: "length acc + Suc (length (drop (nat (i + 1)) xs)) \<le> 32"
    using Suc.prems(2) by (simp add: dr)
  show ?case
  proof (cases "p (xs ! nat i)")
    case True
    have app: "appended (xs ! nat i) (tail_vector acc)
        = Some (Inr (tail_vector (acc @ [xs ! nat i])))"
      using room by (simp add: appended_tail_vector returns_def)
    have "filter_loop p (tail_vector xs) i (tail_vector acc)
        = filter_loop p (tail_vector xs) (i + 1) (tail_vector (acc @ [xs ! nat i]))"
      using inrange ap app True by (subst filter_loop.simps) simp
    also have "\<dots> = returns (tail_vector ((acc @ [xs ! nat i]) @ filter p (drop (nat (i + 1)) xs)))"
      using n i room by (intro Suc.hyps(1)) simp_all
    finally show ?thesis
      using True by (simp add: dr)
  next
    case False
    have "filter_loop p (tail_vector xs) i (tail_vector acc)
        = filter_loop p (tail_vector xs) (i + 1) (tail_vector acc)"
      using inrange ap False by (subst filter_loop.simps) simp
    also have "\<dots> = returns (tail_vector (acc @ filter p (drop (nat (i + 1)) xs)))"
      using n i room by (intro Suc.hyps(1)) simp_all
    finally show ?thesis
      using False by (simp add: dr)
  qed
qed

lemma filter_tail_vector:
  assumes "length xs \<le> 32"
  shows "filter_vec p (tail_vector xs) = returns (tail_vector (filter p xs))"
proof (cases "xs = []")
  case True
  then show ?thesis
    by (simp add: filter_vec_def isEmpty_def)
next
  case False
  then show ?thesis
    using assms filter_loop_tail_vector [of 0 "[]" xs p]
    by (simp add: filter_vec_def isEmpty_def empty_vec_eq)
qed

lemma tail_only_eq: "tail_only w \<Longrightarrow> w = tail_vector (tail w) \<and> length (tail w) \<le> 32"
  by (cases w) (simp add: tail_only_def tail_vector_def Vector_def)

lemma flatMap_loop_tail_vector:
  assumes g: "\<And>x. tail_only (g x)"
  shows "0 \<le> i \<Longrightarrow> length acc \<le> 32 \<Longrightarrow>
   flatMap_loop g (tail_vector xs) i (tail_vector acc) =
     (if length acc + length (concat (map (\<lambda>x. tail (g x)) (drop (nat i) xs))) \<le> 32
      then returns (tail_vector (acc @ concat (map (\<lambda>x. tail (g x)) (drop (nat i) xs))))
      else None)"
proof (induction "length xs - nat i" arbitrary: i acc)
  case 0
  then have "\<not> i < int (length xs)" by simp
  then show ?case
    using "0.prems" by (subst flatMap_loop.simps) simp
next
  case (Suc n)
  then have inrange: "i < int (length xs)" and i: "0 \<le> i" by simp_all
  then have ap: "apply_vec i (tail_vector xs) = Inr (xs ! nat i)"
    by (simp add: apply_tail_vector)
  have nat_i: "nat (i + 1) = Suc (nat i)" "nat i < length xs"
    using i inrange by simp_all
  then have dr: "drop (nat i) xs = xs ! nat i # drop (nat (i + 1)) xs"
    by (simp add: Cons_nth_drop_Suc)
  have n: "n = length xs - nat (i + 1)"
    using Suc.hyps(2) nat_i by simp
  let ?w = "tail (g (xs ! nat i))"
  have gw: "g (xs ! nat i) = tail_vector ?w" "length ?w \<le> 32"
    using tail_only_eq [OF g [of "xs ! nat i"]] by simp_all
  have aa: "appendAll (tail_vector acc) (g (xs ! nat i)) =
     (if length acc + length ?w \<le> 32 then returns (tail_vector (acc @ ?w)) else None)"
    using appendAll_tail_vector [of acc ?w] gw Suc.prems by simp
  show ?case
  proof (cases "length acc + length ?w \<le> 32")
    case True
    have "flatMap_loop g (tail_vector xs) i (tail_vector acc)
        = flatMap_loop g (tail_vector xs) (i + 1) (tail_vector (acc @ ?w))"
      using inrange ap aa True by (subst flatMap_loop.simps) (simp add: returns_def)
    also have "\<dots> = (if length (acc @ ?w)
            + length (concat (map (\<lambda>x. tail (g x)) (drop (nat (i + 1)) xs))) \<le> 32
        then returns (tail_vector ((acc @ ?w)
            @ concat (map (\<lambda>x. tail (g x)) (drop (nat (i + 1)) xs))))
        else None)"
      using n i True by (intro Suc.hyps(1)) simp_all
    finally show ?thesis
      by (simp add: dr add.assoc)
  next
    case False
    have "flatMap_loop g (tail_vector xs) i (tail_vector acc) = None"
      using inrange ap aa False by (subst flatMap_loop.simps) simp
    then show ?thesis
      using False by (simp add: dr)
  qed
qed

lemma flatMap_tail_vector:
  assumes "\<And>x. tail_only (g x)"
  shows "flatMap g (tail_vector xs) =
     (if length (concat (map (\<lambda>x. tail (g x)) xs)) \<le> 32
      then returns (tail_vector (concat (map (\<lambda>x. tail (g x)) xs))) else None)"
proof (cases "xs = []")
  case True
  then show ?thesis
    by (simp add: flatMap_def isEmpty_def empty_vec_eq)
next
  case False
  then show ?thesis
    using flatMap_loop_tail_vector [of g 0 "[]" xs, OF assms]
    by (simp add: flatMap_def isEmpty_def empty_vec_eq)
qed

subsection \<open>The vectors that the operations return\<close>

lemma tail_only_obtain:
  assumes "tail_only v"
  obtains xs where "length xs \<le> 32" and "v = tail_vector xs"
  using assms tail_only_iff by blast

lemma reachable_tail_only: "reachable v \<Longrightarrow> tail_only v"
proof (induction rule: reachable.induct)
  case r_empty
  show ?case by (simp add: empty_vec_eq tail_only_tail_vector)
next
  case (r_of elements v)
  then show ?case
    by (auto simp: of_vec_eq returns_def tail_only_tail_vector split: if_splits)
next
  case (r_from arr v)
  then show ?case
    by (auto simp: from_vec_def of_vec_eq returns_def tail_only_tail_vector split: if_splits)
next
  case (r_updated v index elem w)
  from r_updated.IH obtain xs where xs: "length xs \<le> 32" "v = tail_vector xs"
    by (rule tail_only_obtain)
  with r_updated.hyps(2) show ?case
    by (auto simp: updated_tail_vector tail_only_tail_vector)
next
  case (r_appended v elem w)
  from r_appended.IH obtain xs where xs: "length xs \<le> 32" "v = tail_vector xs"
    by (rule tail_only_obtain)
  with r_appended.hyps(2) show ?case
    by (auto simp: appended_tail_vector returns_def tail_only_tail_vector split: if_splits)
next
  case (r_prepended v elem w)
  from r_prepended.IH obtain xs where xs: "length xs \<le> 32" "v = tail_vector xs"
    by (rule tail_only_obtain)
  with r_prepended.hyps(2) show ?case
    by (auto simp: prepended_tail_vector returns_def tail_only_tail_vector split: if_splits)
next
  case (r_appendAll v that w)
  from r_appendAll.IH(1) obtain xs where xs: "length xs \<le> 32" "v = tail_vector xs"
    by (rule tail_only_obtain)
  from r_appendAll.IH(2) obtain ys where ys: "length ys \<le> 32" "that = tail_vector ys"
    by (rule tail_only_obtain)
  from xs ys r_appendAll.hyps(3) show ?case
    by (auto simp: appendAll_tail_vector returns_def tail_only_tail_vector split: if_splits)
next
  case (r_map v truthy f w)
  from r_map.IH obtain xs where xs: "length xs \<le> 32" "v = tail_vector xs"
    by (rule tail_only_obtain)
  with r_map.hyps(2) show ?case
    by (auto simp: map_tail_vector tail_only_tail_vector)
next
  case (r_filter v p w)
  from r_filter.IH obtain xs where xs: "length xs \<le> 32" "v = tail_vector xs"
    by (rule tail_only_obtain)
  have "length (filter p xs) \<le> 32"
    using xs(1) length_filter_le [of p xs] by linarith
  with xs r_filter.hyps(2) show ?case
    by (auto simp: filter_tail_vector returns_def tail_only_tail_vector)
next
  case (r_flatMap v g w)
  from r_flatMap.IH(1) obtain xs where xs: "length xs \<le> 32" "v = tail_vector xs"
    by (rule tail_only_obtain)
  from r_flatMap.IH(2) have "\<And>x. tail_only (g x)" by simp
  from flatMap_tail_vector [of g xs, OF this] r_flatMap.hyps(2) xs show ?case
    by (auto simp: returns_def tail_only_tail_vector split: if_splits)
qed

lemma tail_only_reachable: "tail_only v \<Longrightarrow> reachable v"
proof -
  assume "tail_only v"
  then obtain xs where xs: "length xs \<le> 32" "v = tail_vector xs"
    by (rule tail_only_obtain)
  then have "of_vec xs = returns v"
    by (simp add: of_vec_eq)
  then show "reachable v"
    by (rule r_of)
qed

text \<open>
  So the values of \<open>reachable\<close> are exactly the tail-only vectors.  The rules of
  \<open>reachable\<close> for \<open>map\<close> and \<open>flatMap\<close> keep the element type; a \<open>map\<close> or
  \<open>flatMap\<close> to another element type returns a reachable vector as well.
\<close>

lemma reachable_iff_tail_only: "reachable v \<longleftrightarrow> tail_only v"
  using reachable_tail_only tail_only_reachable by blast

lemma reachable_map_vec:
  fixes f :: "'a jsval \<Rightarrow> 'b jsval"
  assumes "reachable v" and "map_vec truthy f v = Inr w"
  shows "reachable w"
proof -
  from assms(1) have "tail_only v"
    by (rule reachable_tail_only)
  then obtain xs where "length xs \<le> 32" and "v = tail_vector xs"
    by (rule tail_only_obtain)
  with assms(2) have "tail_only w"
    by (auto simp: map_tail_vector tail_only_tail_vector)
  then show ?thesis
    by (rule tail_only_reachable)
qed

lemma reachable_flatMap:
  fixes g :: "'a jsval \<Rightarrow> 'b vector"
  assumes "reachable v" and "\<And>y. reachable (g y)" and "flatMap g v = returns w"
  shows "reachable w"
proof -
  from assms(1) have "tail_only v"
    by (rule reachable_tail_only)
  then obtain xs where xs: "length xs \<le> 32" "v = tail_vector xs"
    by (rule tail_only_obtain)
  from assms(2) have "\<And>y. tail_only (g y)"
    by (simp add: reachable_tail_only)
  from flatMap_tail_vector [of g xs, OF this] assms(3) xs have "tail_only w"
    by (auto simp: returns_def tail_only_tail_vector split: if_splits)
  then show ?thesis
    by (rule tail_only_reachable)
qed

subsection \<open>Invariants and errors on tail-only vectors\<close>

lemma tail_trie_invariant_tail_vector:
  "length xs \<le> 32 \<Longrightarrow> tail_trie_invariant (tail_vector xs)"
  by (simp add: tail_trie_invariant_def)

lemma reachable_tail_trie_invariant:
  assumes "reachable v"
  shows "tail_trie_invariant v"
proof -
  from assms have "tail_only v"
    by (rule reachable_tail_only)
  then obtain xs where "length xs \<le> 32" and "v = tail_vector xs"
    by (rule tail_only_obtain)
  then show ?thesis
    by (simp add: tail_trie_invariant_tail_vector)
qed

lemma raises_out_of_range_iff:
  "raises_out_of_range c \<longleftrightarrow> (\<exists>j. c = throws (IndexOutOfBounds j))"
  by (cases c rule: raises_out_of_range.cases) (simp_all add: throws_def)

lemma not_raises_returns [simp]: "\<not> raises_out_of_range (returns x)"
  by (simp add: returns_def)

subsection \<open>Access and update through the trie\<close>

text \<open>
  The lemmas of this subsection hold for any vector value, whether or not an operation
  returns it: an update along a path that \<open>getElem\<close> can follow changes what is read
  at that index and nothing else, as long as the indices fit the trie and the 32-bit shifts
  (a depth of at most 5).
\<close>

lemma to_int32_idem: "to_int32 (to_int32 x) = to_int32 x"
  by (simp add: to_int32_def)

lemma digit_0: "digit index 0 = js_and index MASK"
  by (simp add: digit_def js_sar_def js_and_def to_int32_idem)

lemma digit_nonneg: "0 \<le> digit index level"
  by (simp add: digit_def js_and_MASK_nonneg)

lemma js_nth_spread: "js_nth (spread arr) k = js_nth arr k"
proof (cases "0 \<le> k \<and> k < int (length arr)")
  case True
  then have "nat k < length arr" by linarith
  with True show ?thesis
    by (simp add: js_nth_def spread_def read_slot_def)
next
  case False
  then show ?thesis
    by (auto simp: js_nth_def spread_def)
qed

lemma js_nth_js_set_same: "0 \<le> k \<Longrightarrow> js_nth (js_set arr k v) k = v"
  by (auto simp: js_nth_def js_set_def read_slot_def nth_append)

lemma js_nth_js_set_other:
  assumes "0 \<le> k" and "k' \<noteq> k"
  shows "js_nth (js_set arr k v) k' = js_nth arr k'"
proof (cases "k < int (length arr)")
  case True
  with assms have "nat k' \<noteq> nat k \<or> k' < 0" by auto
  with True assms show ?thesis
    by (auto simp: js_nth_def js_set_def)
next
  case False
  show ?thesis
  proof (cases "0 \<le> k' \<and> k' < int (length arr)")
    case True
    with False assms show ?thesis
      by (auto simp: js_nth_def js_set_def nth_append)
  next
    case out: False
    show ?thesis
    proof (cases "0 \<le> k' \<and> k' < k")
      case True
      with out False have "nat k' - length arr < nat k - length arr" "\<not> nat k' < length arr"
        by auto
      with True out False assms show ?thesis
        by (auto simp: js_nth_def js_set_def nth_append read_slot_def)
    next
      case False
      with out \<open>\<not> k < int (length arr)\<close> assms show ?thesis
        by (auto simp: js_nth_def js_set_def)
    qed
  qed
qed

lemma getElem_updateElem_same:
  "getElem node i level = Inr y \<Longrightarrow>
   \<exists>n. updateElem node i x level = Inr n \<and> getElem n i level = Inr x"
proof (induction node i level arbitrary: y rule: getElem.induct)
  case (1 node index level)
  show ?case
  proof (cases "level = 0")
    case True
    then show ?thesis
      by (simp add: updateElem.simps [of node] getElem.simps [of "Node _"]
          js_nth_js_set_same js_and_MASK_nonneg)
  next
    case False
    let ?d = "js_and (js_sar index (level * BITS)) MASK"
    from "1.prems" False obtain child where child: "js_nth (array node) ?d = NodeV child"
      and g: "getElem child index (level - 1) = Inr y"
      by (auto simp: getElem.simps [of node] Let_def split: jsval.splits)
    from "1.IH" [OF False refl child g] obtain c' where
      c': "updateElem child index x (level - 1) = Inr c'" "getElem c' index (level - 1) = Inr x"
      by blast
    have "updateElem node index x level = Inr (Node (js_set (spread (array node)) ?d (NodeV c')))"
      using False child c' by (simp add: updateElem.simps [of node])
    moreover have "getElem (Node (js_set (spread (array node)) ?d (NodeV c'))) index level = Inr x"
      using False c' by (simp add: getElem.simps [of "Node _"] js_nth_js_set_same js_and_MASK_nonneg)
    ultimately show ?thesis by simp
  qed
qed

lemma getElem_updateElem_other:
  "getElem node i level = Inr y \<Longrightarrow> updateElem node i x level = Inr n \<Longrightarrow>
   \<exists>l. 0 \<le> l \<and> l \<le> level \<and> digit j l \<noteq> digit i l \<Longrightarrow>
   getElem n j level = getElem node j level"
proof (induction node i level arbitrary: y n rule: getElem.induct)
  case (1 node index level)
  show ?case
  proof (cases "level = 0")
    case True
    with "1.prems"(3) have "js_and j MASK \<noteq> js_and index MASK"
      by (auto simp: digit_0)
    moreover from True "1.prems"(2)
    have "n = Node (js_set (spread (array node)) (js_and index MASK) x)"
      by (simp add: updateElem.simps [of node])
    ultimately show ?thesis
      using True
      by (simp add: getElem.simps [of _ j] js_nth_js_set_other js_and_MASK_nonneg js_nth_spread)
  next
    case False
    let ?d = "js_and (js_sar index (level * BITS)) MASK"
    let ?dj = "js_and (js_sar j (level * BITS)) MASK"
    from "1.prems"(1) False obtain child where child: "js_nth (array node) ?d = NodeV child"
      and g: "getElem child index (level - 1) = Inr y"
      by (auto simp: getElem.simps [of node] Let_def split: jsval.splits)
    from "1.prems"(2) False child obtain c' where
      c': "updateElem child index x (level - 1) = Inr c'"
      and n: "n = Node (js_set (spread (array node)) ?d (NodeV c'))"
      by (auto simp: updateElem.simps [of node] Let_def split: sum.splits)
    show ?thesis
    proof (cases "?dj = ?d")
      case True
      from "1.prems"(3) obtain l where l: "0 \<le> l" "l \<le> level" "digit j l \<noteq> digit index l"
        by blast
      with True have "l \<noteq> level"
        by (auto simp: digit_def)
      with l have "\<exists>l. 0 \<le> l \<and> l \<le> level - 1 \<and> digit j l \<noteq> digit index l"
        by (intro exI [of _ l]) simp
      from "1.IH" [OF False refl child g c' this]
      have "getElem c' j (level - 1) = getElem child j (level - 1)" .
      with True False child show ?thesis
        by (simp add: n getElem.simps [of _ j level] js_nth_js_set_same js_and_MASK_nonneg)
    next
      case diff: False
      with False show ?thesis
        by (simp add: n getElem.simps [of _ j level] js_nth_js_set_other js_and_MASK_nonneg
            js_nth_spread)
    qed
  qed
qed

lemma to_int32_small: "0 \<le> k \<Longrightarrow> k < 2147483648 \<Longrightarrow> to_int32 k = k"
  by (simp add: to_int32_def)

lemma digit_eq_bits:
  assumes k: "0 \<le> k" "k < 2147483648" and l: "0 \<le> l" "l \<le> 5"
  shows "digit k l = take_bit 5 (drop_bit (5 * nat l) k)"
proof -
  from l have sh: "nat (l * 5 mod 32) = 5 * nat l"
    by (simp add: nat_mult_distrib)
  have q: "0 \<le> k div 2 ^ (5 * nat l)" "k div 2 ^ (5 * nat l) \<le> k"
    using k zdiv_mono2 [of k 1 "2 ^ (5 * nat l)"] by (simp_all add: pos_imp_zdiv_nonneg_iff)
  then have "to_int32 (k div 2 ^ (5 * nat l)) = k div 2 ^ (5 * nat l)"
    using k by (intro to_int32_small) simp_all
  then have "digit k l = (k div 2 ^ (5 * nat l)) AND 31"
    using k by (simp add: digit_def js_and_def js_sar_def BITS_def MASK_eq sh to_int32_small)
  also have "\<dots> = take_bit 5 (k div 2 ^ (5 * nat l))"
    by (simp add: take_bit_eq_mask mask_eq_exp_minus_1)
  finally show ?thesis
    by (simp add: drop_bit_eq_div)
qed

lemma digits_determine_index:
  assumes d: "0 \<le> d" "d \<le> 5"
    and i: "0 \<le> i" "i < 32 ^ nat (d + 1)"
    and j: "0 \<le> j" "j < 32 ^ nat (d + 1)"
    and eq: "\<And>l. 0 \<le> l \<Longrightarrow> l \<le> d \<Longrightarrow> digit j l = digit i l"
  shows "j = i"
proof (rule bit_eqI)
  fix n
  have pw: "(32::int) ^ nat (d + 1) = 2 ^ (5 * nat (d + 1))"
    by (simp add: power_mult)
  have "(2::int) ^ (5 * nat (d + 1)) \<le> 2 ^ 30"
    using d by (intro power_increasing) simp_all
  moreover have "(2::int) ^ 30 = 1073741824"
    by simp
  ultimately have small: "i < 2147483648" "j < 2147483648"
    using i j pw by linarith+
  show "bit j n \<longleftrightarrow> bit i n"
  proof (cases "n < 5 * nat (d + 1)")
    case True
    define l where "l = int (n div 5)"
    have l: "0 \<le> l" "l \<le> d" "l \<le> 5" "n = 5 * nat l + n mod 5"
      using True d by (simp_all add: l_def)
    from eq [OF l(1,2)] have "take_bit 5 (drop_bit (5 * nat l) j) = take_bit 5 (drop_bit (5 * nat l) i)"
      using i j small l by (simp add: digit_eq_bits)
    then have "bit (take_bit 5 (drop_bit (5 * nat l) j)) (n mod 5)
        \<longleftrightarrow> bit (take_bit 5 (drop_bit (5 * nat l) i)) (n mod 5)"
      by simp
    then have "bit j (5 * nat l + n mod 5) \<longleftrightarrow> bit i (5 * nat l + n mod 5)"
      by (simp add: bit_take_bit_iff bit_drop_bit_eq)
    with l(4) show ?thesis by simp
  next
    case False
    then have "(2::int) ^ (5 * nat (d + 1)) \<le> 2 ^ n"
      by (intro power_increasing) simp_all
    with i j pw have "i < 2 ^ n" "j < 2 ^ n"
      by linarith+
    with i j have "i div 2 ^ n = 0" "j div 2 ^ n = 0"
      by simp_all
    then show ?thesis
      by (simp add: bit_iff_odd)
  qed
qed

lemma Vector_sel [simp]:
  "root (Vector r t d s) = r" "tail (Vector r t d s) = t"
  "depth (Vector r t d s) = d" "vsize (Vector r t d s) = s"
  by (simp_all add: Vector_def)

lemma updated_apply_with_trie:
  assumes d: "0 \<le> depth v" "depth v \<le> 5"
    and cap: "vsize v - int (length (tail v)) \<le> 32 ^ nat (depth v + 1)"
    and i: "0 \<le> i" "i < vsize v"
    and ok: "apply_vec i v = Inr y"
  shows "\<exists>w. updated i x v = Inr w \<and> apply_vec i w = Inr x \<and>
           (\<forall>j. 0 \<le> j \<and> j < vsize v \<and> j \<noteq> i \<longrightarrow> apply_vec j w = apply_vec j v)"
proof (cases "vsize v - int (length (tail v)) \<le> i")
  case True
  let ?off = "vsize v - int (length (tail v))"
  let ?w = "Vector (root v) ((tail v)[nat (i - ?off) := x]) (depth v) (vsize v)"
  from True i have k: "0 \<le> i - ?off" "nat (i - ?off) < length (tail v)"
    by simp_all
  from True i have A: "updated i x v = Inr ?w"
    by (simp add: updated_def Let_def)
  from True i k have B: "apply_vec i ?w = Inr x"
    by (simp add: apply_vec_def Let_def tail_nth_def)
  have C: "apply_vec j ?w = apply_vec j v" if "j \<noteq> i" for j
  proof (cases "?off \<le> j")
    case in_tail: True
    with that True have "nat (j - ?off) \<noteq> nat (i - ?off)"
      by simp
    with in_tail show ?thesis
      by (simp add: apply_vec_def Let_def tail_nth_def)
  next
    case False
    then show ?thesis
      by (simp add: apply_vec_def Let_def)
  qed
  show ?thesis
  proof (intro exI conjI allI impI)
    show "updated i x v = Inr ?w" by (rule A)
    show "apply_vec i ?w = Inr x" by (rule B)
    fix j
    assume "0 \<le> j \<and> j < vsize v \<and> j \<noteq> i"
    then show "apply_vec j ?w = apply_vec j v" by (simp add: C)
  qed
next
  case False
  let ?off = "vsize v - int (length (tail v))"
  from False i ok have g: "getElem (root v) i (depth v) = Inr y"
    by (simp add: apply_vec_def Let_def)
  from getElem_updateElem_same [OF g, of x] obtain n where
    n: "updateElem (root v) i x (depth v) = Inr n" "getElem n i (depth v) = Inr x"
    by blast
  let ?w = "Vector n (tail v) (depth v) (vsize v)"
  from False i n have A: "updated i x v = Inr ?w"
    by (simp add: updated_def Let_def)
  from False i n have B: "apply_vec i ?w = Inr x"
    by (simp add: apply_vec_def Let_def)
  have C: "apply_vec j ?w = apply_vec j v" if j: "0 \<le> j" "j \<noteq> i" for j
  proof (cases "?off \<le> j")
    case True
    then show ?thesis
      by (simp add: apply_vec_def Let_def)
  next
    case in_trie: False
    have "\<exists>l. 0 \<le> l \<and> l \<le> depth v \<and> digit j l \<noteq> digit i l"
    proof (rule ccontr)
      assume "\<not> (\<exists>l. 0 \<le> l \<and> l \<le> depth v \<and> digit j l \<noteq> digit i l)"
      then have eq: "\<And>l. 0 \<le> l \<Longrightarrow> l \<le> depth v \<Longrightarrow> digit j l = digit i l"
        by blast
      from False in_trie cap have lt: "i < 32 ^ nat (depth v + 1)" "j < 32 ^ nat (depth v + 1)"
        by linarith+
      have "j = i"
        by (rule digits_determine_index [OF d i(1) lt(1) j(1) lt(2) eq])
      with j(2) show False by simp
    qed
    from getElem_updateElem_other [OF g n(1) this]
    have "getElem n j (depth v) = getElem (root v) j (depth v)" .
    with in_trie show ?thesis
      by (simp add: apply_vec_def Let_def)
  qed
  show ?thesis
  proof (intro exI conjI allI impI)
    show "updated i x v = Inr ?w" by (rule A)
    show "apply_vec i ?w = Inr x" by (rule B)
    fix j
    assume "0 \<le> j \<and> j < vsize v \<and> j \<noteq> i"
    then show "apply_vec j ?w = apply_vec j v" by (simp add: C)
  qed
qed

subsection \<open>\<open>prepended\<close> on a vector with a trie\<close>



subsection \<open>The trie-based operations against the array-backed ones\<close>

text \<open>
  Whenever an operation of the trie-based vector returns, its result holds the elements
  that the array-backed operation computes.
\<close>

lemma observers_agree:
  assumes "reachable v"
  shows "size_vec v = size_arr (abs_vec v)"
    and "isEmpty v = isEmpty_arr (abs_vec v)"
    and "toArray v = Inr (toArray_arr (abs_vec v))"
    and "apply_vec i v = apply_arr i (abs_vec v)"
    and "get i v = get_arr i (abs_vec v)"
proof -
  from assms have "tail_only v"
    by (rule reachable_tail_only)
  then obtain xs where len: "length xs \<le> 32" and v: "v = tail_vector xs"
    by (rule tail_only_obtain)
  show "size_vec v = size_arr (abs_vec v)"
    by (simp add: v size_vec_def size_arr_def abs_vec_def)
  show "isEmpty v = isEmpty_arr (abs_vec v)"
    by (simp add: v isEmpty_def isEmpty_arr_def abs_vec_def)
  show "toArray v = Inr (toArray_arr (abs_vec v))"
    by (simp add: v toArray_tail_vector toArray_arr_def abs_vec_def)
  show "apply_vec i v = apply_arr i (abs_vec v)"
    by (simp add: v apply_tail_vector apply_arr_def abs_vec_def tail_nth_def)
  show "get i v = get_arr i (abs_vec v)"
    by (simp add: v get_tail_vector get_arr_def abs_vec_def tail_nth_def)
qed

lemma constructors_agree:
  "abs_vec empty_vec = empty_arr"
  "of_vec elements = returns w \<Longrightarrow> abs_vec w = of_arr elements"
  "from_vec elements = returns w \<Longrightarrow> abs_vec w = from_arr elements"
  by (auto simp: empty_vec_eq abs_vec_def empty_arr_def of_vec_eq from_vec_def of_arr_def
      from_arr_def returns_def split: if_splits)

lemma mutators_agree:
  assumes "reachable v"
  shows "updated i x v = Inr w \<Longrightarrow> abs_vec w = updated_arr i x (abs_vec v)"
    and "appended x v = returns w \<Longrightarrow> abs_vec w = appended_arr x (abs_vec v)"
    and "prepended x v = returns w \<Longrightarrow> abs_vec w = prepended_arr x (abs_vec v)"
    and "map_vec truthy f v = Inr w' \<Longrightarrow> abs_vec w' = map_arr f (abs_vec v)"
    and "filter_vec p v = returns w \<Longrightarrow> abs_vec w = filter_arr p (abs_vec v)"
    and "reachable that \<Longrightarrow> appendAll v that = returns w
          \<Longrightarrow> abs_vec w = appendAll_arr (abs_vec v) (abs_vec that)"
    and "(\<And>y. reachable (g y)) \<Longrightarrow> flatMap g v = returns w''
          \<Longrightarrow> abs_vec w'' = flatMap_arr (\<lambda>y. abs_vec (g y)) (abs_vec v)"
proof -
  from assms have "tail_only v"
    by (rule reachable_tail_only)
  then obtain xs where len: "length xs \<le> 32" and v: "v = tail_vector xs"
    by (rule tail_only_obtain)
  show "updated i x v = Inr w \<Longrightarrow> abs_vec w = updated_arr i x (abs_vec v)"
    by (auto simp: v updated_tail_vector updated_arr_def abs_vec_def split: if_splits)
  show "appended x v = returns w \<Longrightarrow> abs_vec w = appended_arr x (abs_vec v)"
    using len
    by (auto simp: v appended_tail_vector appended_arr_def abs_vec_def returns_def split: if_splits)
  show "prepended x v = returns w \<Longrightarrow> abs_vec w = prepended_arr x (abs_vec v)"
    using len
    by (auto simp: v prepended_tail_vector prepended_arr_def abs_vec_def returns_def
        split: if_splits)
  show "map_vec truthy f v = Inr w' \<Longrightarrow> abs_vec w' = map_arr f (abs_vec v)"
    by (auto simp: v map_tail_vector map_arr_def abs_vec_def)
  show "filter_vec p v = returns w \<Longrightarrow> abs_vec w = filter_arr p (abs_vec v)"
    using len by (auto simp: v filter_tail_vector filter_arr_def abs_vec_def returns_def)
  show "abs_vec w = appendAll_arr (abs_vec v) (abs_vec that)"
    if "reachable that" and "appendAll v that = returns w"
  proof -
    from that(1) have "tail_only that"
      by (rule reachable_tail_only)
    then obtain ys where "length ys \<le> 32" and "that = tail_vector ys"
      by (rule tail_only_obtain)
    with len that(2) show ?thesis
      by (auto simp: v appendAll_tail_vector appendAll_arr_def abs_vec_def returns_def
          split: if_splits)
  qed
  show "abs_vec w'' = flatMap_arr (\<lambda>y. abs_vec (g y)) (abs_vec v)"
    if "\<And>y. reachable (g y)" and "flatMap g v = returns w''"
  proof -
    from that(1) have "\<And>y. tail_only (g y)"
      by (simp add: reachable_tail_only)
    from flatMap_tail_vector [of g xs, OF this] that(2) show ?thesis
      by (auto simp: v flatMap_arr_def abs_vec_def returns_def split: if_splits)
  qed
qed

section \<open>The claims\<close>

text \<open>
  C1.  Appending one element to the 32-element vector \<open>of(1..32)\<close> should return a vector
  of size 33 with tail \<open>[33]\<close> and the 32 original elements in one leaf-level node of the
  trie.  In the code \<open>of(1..32)\<close> is the tail-only vector of depth 0 with an empty root,
  and \<open>appended(33)\<close> on it does not return: \<open>tailIndex\<close> is 0, the depth is not
  increased, and \<open>pushTail\<close> starts at level 0 below its only base case \<open>level = 1\<close>.
\<close>

theorem appended_full_of_diverges:
  "of_vec (map Val [1..32]) = returns (tail_vector (map Val [1..32])) \<and>
   appended (Val 33) (tail_vector (map Val [1..32])) = None"
  by (simp add: of_vec_eq appended_tail_vector)

text \<open>
  C2.  Every public operation should be total, \<open>appended\<close> in particular on a vector
  whose tail holds 32 elements.  In the code \<open>appended\<close> does not return on the vector
  that \<open>of\<close> builds from 32 equal elements, whatever the element appended.
\<close>

theorem appended_not_total:
  "reachable (tail_vector (replicate 32 x)) \<and> appended elem (tail_vector (replicate 32 x)) = None"
proof
  show "reachable (tail_vector (replicate 32 x))"
    by (rule tail_only_reachable) (simp add: tail_only_tail_vector)
  show "appended elem (tail_vector (replicate 32 x)) = None"
    by (simp add: appended_tail_vector)
qed

text \<open>
  C3.  \<open>v.prepended(x)\<close> should have size \<open>v.size() + 1\<close> and the elements
  \<open>[x, ...v.toArray()]\<close> for every vector \<open>v\<close>.  In the code \<open>prepended(0)\<close> on
  \<open>of(1..32)\<close> does not return: the tail is full, so it runs \<open>of(0).appendAll(this)\<close>,
  whose 32nd \<open>appended\<close> meets a full tail.
\<close>

theorem prepended_full_of_diverges:
  "of_vec (map Val [1..32]) = returns (tail_vector (map Val [1..32])) \<and>
   prepended (Val 0) (tail_vector (map Val [1..32])) = None"
  by (simp add: of_vec_eq prepended_tail_vector)


text \<open>
  C5.  For every vector \<open>v\<close>, element \<open>x\<close> and index \<open>i\<close> in \<open>[0, size)\<close>,
  \<open>v.updated(i, x).apply(i)\<close> is \<open>x\<close>, and \<open>v.updated(i, x).apply(j)\<close> is
  \<open>v.apply(j)\<close> for every other index \<open>j\<close> in range.  This holds for the vectors
  that the operations return, where the update is in the tail, and through
  \<open>updateElem\<close> and \<open>getElem\<close> for any vector value with a trie of depth at
  most 5 that holds at most \<open>32 ^ (depth + 1)\<close> elements and in which \<open>apply(i)\<close>
  finds an element.
\<close>

theorem updated_apply:
  assumes "reachable v \<or>
      (0 \<le> depth v \<and> depth v \<le> 5 \<and>
       vsize v - int (length (tail v)) \<le> 32 ^ nat (depth v + 1) \<and>
       (\<exists>y. apply_vec i v = Inr y))"
    and "0 \<le> i" and "i < size_vec v"
  shows "\<exists>w. updated i x v = Inr w \<and> apply_vec i w = Inr x \<and>
           (\<forall>j. 0 \<le> j \<and> j < size_vec v \<and> j \<noteq> i \<longrightarrow> apply_vec j w = apply_vec j v)"
proof -
  from assms(2,3) have i: "0 \<le> i" "i < vsize v"
    by (simp_all add: size_vec_def)
  have "0 \<le> depth v \<and> depth v \<le> 5 \<and>
       vsize v - int (length (tail v)) \<le> 32 ^ nat (depth v + 1) \<and>
       (\<exists>y. apply_vec i v = Inr y)"
  proof (cases "reachable v")
    case True
    then have "tail_only v"
      by (rule reachable_tail_only)
    then obtain xs where xs: "length xs \<le> 32" "v = tail_vector xs"
      by (rule tail_only_obtain)
    with i show ?thesis
      by (simp add: apply_tail_vector)
  next
    case False
    with assms(1) show ?thesis by blast
  qed
  then obtain y where d: "0 \<le> depth v" "depth v \<le> 5"
    and cap: "vsize v - int (length (tail v)) \<le> 32 ^ nat (depth v + 1)"
    and ok: "apply_vec i v = Inr y"
    by blast
  from updated_apply_with_trie [OF d cap i ok, of x] show ?thesis
    by (simp add: size_vec_def)
qed

theorem updated_apply_witness:
  "reachable (tail_vector [Val (1::int), Val 2, Val 3]) \<and>
   (\<exists>w. updated 1 (Val 9) (tail_vector [Val (1::int), Val 2, Val 3]) = Inr w \<and>
        apply_vec 1 w = Inr (Val 9) \<and> apply_vec 0 w = Inr (Val 1) \<and>
        apply_vec 2 w = Inr (Val 3)) \<and>
   apply_vec 40
     (Vector (Node [Some (NodeV (Node (map (\<lambda>k. Some (Val k)) [0..31]))),
                    Some (NodeV (Node (map (\<lambda>k. Some (Val k)) [32..63])))])
        [Val 64] 1 65) = Inr (Val 40) \<and>
   (\<exists>w. updated 40 (Val 99)
          (Vector (Node [Some (NodeV (Node (map (\<lambda>k. Some (Val k)) [0..31]))),
                         Some (NodeV (Node (map (\<lambda>k. Some (Val k)) [32..63])))])
             [Val 64] 1 65) = Inr w \<and>
        apply_vec 40 w = Inr (Val 99) \<and> apply_vec 8 w = Inr (Val 8) \<and>
        apply_vec 41 w = Inr (Val 41) \<and> apply_vec 64 w = Inr (Val 64))"
proof -
  let ?t = "tail_vector [Val (1::int), Val 2, Val 3]"
  let ?v = "Vector (Node [Some (NodeV (Node (map (\<lambda>k. Some (Val k)) [0..31]))),
                          Some (NodeV (Node (map (\<lambda>k. Some (Val k)) [32..63])))])
              [Val 64] 1 65"
  note ev = apply_vec_def getElem.simps js_sar_def js_and_def to_int32_def BITS_def MASK_eq
    js_nth_def read_slot_def
  have "of_vec [Val (1::int), Val 2, Val 3] = returns ?t"
    by (simp add: of_vec_eq)
  then have r: "reachable ?t"
    by (rule r_of)
  from updated_apply [of ?t 1 "Val 9"] r obtain w1 where
    w1: "updated 1 (Val 9) ?t = Inr w1" "apply_vec 1 w1 = Inr (Val 9)"
      "\<forall>j. 0 \<le> j \<and> j < size_vec ?t \<and> j \<noteq> 1 \<longrightarrow> apply_vec j w1 = apply_vec j ?t"
    by (auto simp: size_vec_def)
  from w1(3) have "apply_vec 0 w1 = apply_vec 0 ?t" "apply_vec 2 w1 = apply_vec 2 ?t"
    by (simp_all add: size_vec_def)
  then have t: "apply_vec 0 w1 = Inr (Val 1)" "apply_vec 2 w1 = Inr (Val 3)"
    by (simp_all add: apply_tail_vector)
  have a40: "apply_vec 40 ?v = Inr (Val 40)"
    by (simp add: ev)
  have hyp: "reachable ?v \<or>
      (0 \<le> depth ?v \<and> depth ?v \<le> 5 \<and>
       vsize ?v - int (length (tail ?v)) \<le> 32 ^ nat (depth ?v + 1) \<and>
       (\<exists>y. apply_vec 40 ?v = Inr y))"
    using a40 by simp
  from updated_apply [OF hyp, of "Val 99"] obtain w2 where
    w2: "updated 40 (Val 99) ?v = Inr w2" "apply_vec 40 w2 = Inr (Val 99)"
      "\<forall>j. 0 \<le> j \<and> j < size_vec ?v \<and> j \<noteq> 40 \<longrightarrow> apply_vec j w2 = apply_vec j ?v"
    by (auto simp: size_vec_def)
  from w2(3) have "apply_vec 8 w2 = apply_vec 8 ?v" "apply_vec 41 w2 = apply_vec 41 ?v"
    "apply_vec 64 w2 = apply_vec 64 ?v"
    by (simp_all add: size_vec_def)
  moreover have "apply_vec 8 ?v = Inr (Val 8)" "apply_vec 41 ?v = Inr (Val 41)"
    "apply_vec 64 ?v = Inr (Val 64)"
    by (simp_all add: ev tail_nth_def)
  ultimately have u: "apply_vec 8 w2 = Inr (Val 8)" "apply_vec 41 w2 = Inr (Val 41)"
    "apply_vec 64 w2 = Inr (Val 64)"
    by simp_all
  from r w1(1,2) t a40 w2(1,2) u show ?thesis
    by blast
qed

text \<open>
  C6.  \<open>Vector.from(arr).toArray()\<close> should equal \<open>arr\<close> for every array, those of
  length 33, 1024 and 1025 included.  In the code \<open>from\<close> does not return on the
  arrays \<open>[1, ..., 33]\<close>, \<open>[1, ..., 1024]\<close> and \<open>[1, ..., 1025]\<close>.
\<close>

theorem from_33_diverges:
  "from_vec (map Val [1..33]) = None \<and>
   from_vec (map Val [1..1024]) = None \<and>
   from_vec (map Val [1..1025]) = None"
  by (simp add: from_vec_def of_vec_eq)

text \<open>
  C7.  \<open>v.apply(i)\<close> raises the out-of-range error exactly when \<open>i < 0\<close> or
  \<open>i \<ge> v.size()\<close>; for \<open>i\<close> in range it returns the stored element; and no other
  operation raises that error.
\<close>

theorem apply_raises_iff:
  assumes "reachable v"
  shows "((\<exists>e. apply_vec i v = Inl e) \<longleftrightarrow> i < 0 \<or> size_vec v \<le> i) \<and>
    (i < 0 \<or> size_vec v \<le> i \<longrightarrow> apply_vec i v = Inl (IndexOutOfBounds i)) \<and>
    (0 \<le> i \<and> i < size_vec v \<longrightarrow>
       toArray v = Inr (tail v) \<and> apply_vec i v = Inr (tail v ! nat i)) \<and>
    \<not> raises_out_of_range (Some (get i v)) \<and>
    \<not> raises_out_of_range (Some (updated i x v)) \<and>
    \<not> raises_out_of_range (appended x v) \<and>
    \<not> raises_out_of_range (prepended x v) \<and>
    (reachable that \<longrightarrow> \<not> raises_out_of_range (appendAll v that)) \<and>
    \<not> raises_out_of_range (Some (map_vec truthy f v)) \<and>
    \<not> raises_out_of_range (filter_vec p v) \<and>
    ((\<forall>y. reachable (g y)) \<longrightarrow> \<not> raises_out_of_range (flatMap g v)) \<and>
    \<not> raises_out_of_range (Some (toArray v)) \<and>
    \<not> raises_out_of_range (of_vec elements) \<and>
    \<not> raises_out_of_range (from_vec elements)"
proof -
  from assms have "tail_only v"
    by (rule reachable_tail_only)
  then obtain xs where len: "length xs \<le> 32" and v: "v = tail_vector xs"
    by (rule tail_only_obtain)
  have a1: "(\<exists>e. apply_vec i v = Inl e) \<longleftrightarrow> i < 0 \<or> size_vec v \<le> i"
    by (simp add: v apply_tail_vector size_vec_def)
  have a2: "i < 0 \<or> size_vec v \<le> i \<longrightarrow> apply_vec i v = Inl (IndexOutOfBounds i)"
    by (simp add: v apply_tail_vector size_vec_def)
  have a3: "0 \<le> i \<and> i < size_vec v \<longrightarrow>
       toArray v = Inr (tail v) \<and> apply_vec i v = Inr (tail v ! nat i)"
    by (simp add: v apply_tail_vector toArray_tail_vector size_vec_def)
  have b1: "\<not> raises_out_of_range (Some (get i v))"
    by (simp add: v get_tail_vector)
  have b2: "\<not> raises_out_of_range (Some (updated i x v))"
    by (simp add: v updated_tail_vector)
  have b3: "\<not> raises_out_of_range (appended x v)"
    using len by (simp add: v appended_tail_vector)
  have b4: "\<not> raises_out_of_range (prepended x v)"
    using len by (simp add: v prepended_tail_vector)
  have b5: "\<not> raises_out_of_range (appendAll v that)" if "reachable that"
  proof -
    from that have "tail_only that"
      by (rule reachable_tail_only)
    then obtain ys where "length ys \<le> 32" and "that = tail_vector ys"
      by (rule tail_only_obtain)
    with len show ?thesis
      by (simp add: v appendAll_tail_vector)
  qed
  have b6: "\<not> raises_out_of_range (Some (map_vec truthy f v))"
    by (simp add: v map_tail_vector)
  have b7: "\<not> raises_out_of_range (filter_vec p v)"
    using len by (simp add: v filter_tail_vector)
  have b8: "\<not> raises_out_of_range (flatMap g v)" if "\<forall>y. reachable (g y)"
  proof -
    from that have "\<And>y. tail_only (g y)"
      by (simp add: reachable_tail_only)
    then show ?thesis
      by (simp add: v flatMap_tail_vector)
  qed
  have b9: "\<not> raises_out_of_range (Some (toArray v))"
    by (simp add: v toArray_tail_vector)
  have b10: "\<not> raises_out_of_range (of_vec elements)"
    by (simp add: of_vec_eq)
  have b11: "\<not> raises_out_of_range (from_vec elements)"
    by (simp add: from_vec_def of_vec_eq)
  from a1 a2 a3 b1 b2 b3 b4 b5 b6 b7 b8 b9 b10 b11 show ?thesis
    by blast
qed

theorem apply_raises_iff_witness:
  "reachable (tail_vector [Val (1::int), Val 2, Val 3]) \<and>
   apply_vec 3 (tail_vector [Val (1::int), Val 2, Val 3]) = Inl (IndexOutOfBounds 3) \<and>
   apply_vec (- 1) (tail_vector [Val (1::int), Val 2, Val 3]) = Inl (IndexOutOfBounds (- 1)) \<and>
   apply_vec 2 (tail_vector [Val (1::int), Val 2, Val 3]) = Inr (Val 3)"
proof -
  let ?v = "tail_vector [Val (1::int), Val 2, Val 3]"
  have "of_vec [Val (1::int), Val 2, Val 3] = returns ?v"
    by (simp add: of_vec_eq)
  then have r: "reachable ?v"
    by (rule r_of)
  from apply_raises_iff [OF r, of 3, THEN conjunct2, THEN conjunct1] have "apply_vec 3 ?v = Inl (IndexOutOfBounds 3)"
    by (simp add: size_vec_def)
  moreover from apply_raises_iff [OF r, of "- 1", THEN conjunct2, THEN conjunct1]
  have "apply_vec (- 1) ?v = Inl (IndexOutOfBounds (- 1))"
    by (simp add: size_vec_def)
  moreover from apply_raises_iff [OF r, of 2, THEN conjunct2, THEN conjunct2, THEN conjunct1] have "apply_vec 2 ?v = Inr (Val 3)"
    by (simp add: size_vec_def)
  ultimately show ?thesis
    using r by simp
qed

text \<open>
  C8.  \<open>v.get(i)\<close> should be absent exactly when \<open>i\<close> is out of range.  In the code
  \<open>get\<close> wraps the element with \<open>Some\<close>, which gives \<open>None\<close> for \<open>null\<close> and
  \<open>undefined\<close>: on \<open>of(null)\<close>, \<open>get(0)\<close> is absent although 0 is in range.
\<close>

theorem get_absent_for_null_counterexample:
  "of_vec [Null :: int jsval] = returns (tail_vector [Null]) \<and>
   (0::int) < size_vec (tail_vector [Null :: int jsval]) \<and>
   get 0 (tail_vector [Null :: int jsval]) = Inr None"
  by (simp add: of_vec_eq size_vec_def get_tail_vector Some_js_def)

text \<open>
  C8, amended.  \<open>v.get(i)\<close> is absent exactly when \<open>i\<close> is out of range or the
  element at \<open>i\<close> is \<open>null\<close> or \<open>undefined\<close>; for any other element it is present
  and holds \<open>v.apply(i)\<close>; \<open>get\<close> never raises.
\<close>

theorem get_absent_iff:
  assumes "reachable v"
  shows "(get i v = Inr None \<longleftrightarrow>
            i < 0 \<or> size_vec v \<le> i \<or> apply_vec i v = Inr Null \<or> apply_vec i v = Inr Undefined) \<and>
    (\<forall>x. apply_vec i v = Inr x \<and> x \<noteq> Null \<and> x \<noteq> Undefined \<longrightarrow> get i v = Inr (Some x)) \<and>
    (\<forall>e. get i v \<noteq> Inl e)"
proof -
  from assms have "tail_only v"
    by (rule reachable_tail_only)
  then obtain xs where len: "length xs \<le> 32" and v: "v = tail_vector xs"
    by (rule tail_only_obtain)
  show ?thesis
    by (auto simp: v get_tail_vector apply_tail_vector size_vec_def Some_js_def)
qed

theorem get_absent_iff_witness:
  "reachable (tail_vector [Val (1::int), Null, Val 3]) \<and>
   get 0 (tail_vector [Val (1::int), Null, Val 3]) = Inr (Some (Val 1)) \<and>
   get 1 (tail_vector [Val (1::int), Null, Val 3]) = Inr None \<and>
   get 3 (tail_vector [Val (1::int), Null, Val 3]) = Inr None"
proof -
  let ?v = "tail_vector [Val (1::int), Null, Val 3]"
  have "of_vec [Val (1::int), Null, Val 3] = returns ?v"
    by (simp add: of_vec_eq)
  then have r: "reachable ?v"
    by (rule r_of)
  from get_absent_iff [OF r, of 0] have "get 0 ?v = Inr (Some (Val 1))"
    by (simp add: apply_tail_vector)
  moreover from get_absent_iff [OF r, of 1] have "get 1 ?v = Inr None"
    by (simp add: apply_tail_vector)
  moreover from get_absent_iff [OF r, of 3] have "get 3 ?v = Inr None"
    by (simp add: size_vec_def)
  ultimately show ?thesis
    using r by simp
qed

text \<open>
  C9.  For an index outside \<open>[0, size)\<close>, \<open>updated\<close> returns the receiver unchanged
  and raises nothing; in particular \<open>Vector.of(1,2,3).updated(10, 99).toArray()\<close> is
  \<open>[1, 2, 3]\<close>.
\<close>

theorem updated_out_of_range_unchanged:
  "(index < 0 \<or> size_vec v \<le> index \<longrightarrow> updated index elem v = Inr v) \<and>
   (\<exists>v3. of_vec [Val 1, Val 2, Val 3] = returns v3 \<and>
      (\<exists>w. updated 10 (Val 99) v3 = Inr w \<and> toArray w = Inr [Val (1::int), Val 2, Val 3]))"
proof
  show "index < 0 \<or> size_vec v \<le> index \<longrightarrow> updated index elem v = Inr v"
    by (auto simp: updated_def size_vec_def)
  show "\<exists>v3. of_vec [Val 1, Val 2, Val 3] = returns v3 \<and>
      (\<exists>w. updated 10 (Val 99) v3 = Inr w \<and> toArray w = Inr [Val (1::int), Val 2, Val 3])"
    by (simp add: of_vec_eq returns_def updated_tail_vector toArray_tail_vector)
qed

theorem updated_out_of_range_unchanged_witness:
  "updated 10 (Val 99) (tail_vector [Val 1, Val 2, Val (3::int)])
     = Inr (tail_vector [Val 1, Val 2, Val 3])"
  using updated_out_of_range_unchanged [of 10 "tail_vector [Val 1, Val 2, Val (3::int)]" "Val 99"]
  by (simp add: size_vec_def)

text \<open>
  C10.  The trie-based and the array-backed vector should agree after the same operations.
  On the 33 elements \<open>1, ..., 33\<close> the array-backed \<open>of\<close> returns a vector of size 33
  holding them, and the trie-based \<open>of\<close> does not return.
\<close>

theorem trie_and_array_of_33_differ:
  "of_vec (map Val [1..33]) = None \<and>
   size_arr (of_arr (map Val [1..33])) = 33 \<and>
   toArray_arr (of_arr (map Val [1..33])) = map Val [1..33]"
  by (simp add: of_vec_eq size_arr_def of_arr_def toArray_arr_def)

end
